theory Spec2Isabelle
  imports Main "HOL-Library.AList" "HOL-Library.Multiset"
begin

section \<open>Snapshots and change sets\<close>

text \<open>
  A Go \<^verbatim>\<open>map[string]string\<close> is modelled as an association list: \<open>map_of\<close> is the lookup,
  \<open>AList.update\<close> is the assignment \<^verbatim>\<open>m[k] = v\<close>, and the order of the list is one of the
  orders in which \<^verbatim>\<open>range\<close> may visit the entries.  The nil map is the empty list.
  Every property below is stated on \<open>map_of\<close> and on key sets, so it holds for each
  iteration order.
\<close>

type_synonym snapshot = "(string \<times> string) list"

type_synonym changeset = "(string \<times> (string \<times> string)) list"

text \<open>The Go read \<^verbatim>\<open>m[k]\<close>: the zero value (the empty string) when the key is absent.\<close>

definition lookup :: "snapshot \<Rightarrow> string \<Rightarrow> string" where
  "lookup m k = (case map_of m k of None \<Rightarrow> [] | Some v \<Rightarrow> v)"

text \<open>\<^verbatim>\<open>for k := range m { keys[k] = struct{}{} }\<close>\<close>

definition addKeys :: "snapshot \<Rightarrow> (string \<times> unit) list \<Rightarrow> (string \<times> unit) list" where
  "addKeys m keys = fold (\<lambda>(k, _) ks. AList.update k () ks) m keys"

text \<open>\<^verbatim>\<open>if old[k] != new[k] { diff[k] = [2]string{old[k], new[k]} }\<close>\<close>

definition compareKey :: "snapshot \<Rightarrow> snapshot \<Rightarrow> string \<Rightarrow> changeset \<Rightarrow> changeset" where
  "compareKey old new k diff =
     (if lookup old k \<noteq> lookup new k
      then AList.update k (lookup old k, lookup new k) diff
      else diff)"

definition diffMaps :: "snapshot \<Rightarrow> snapshot \<Rightarrow> changeset" where
  "diffMaps old new =
     (let keys = addKeys new (addKeys old [])
      in fold (\<lambda>(k, _) diff. compareKey old new k diff) keys [])"

section \<open>Extraction of Open Graph tags\<close>

text \<open>
  The HTML parser (goquery over \<^verbatim>\<open>golang.org/x/net/html\<close>) is a dependency and not part of
  the repository.  It enters \<open>parseOG\<close> as the parameter \<open>findMeta\<close>: the attribute lists of
  the elements selected by \<^verbatim>\<open>doc.Find("meta")\<close>, in the order in which \<^verbatim>\<open>Each\<close> visits them.
  \<^verbatim>\<open>s.Attr(name)\<close> returns the value of the first attribute with that key, and whether there
  is one.
\<close>

type_synonym attrs = "(string \<times> string) list"

definition attr :: "attrs \<Rightarrow> string \<Rightarrow> string option" where
  "attr s name = map_of s name"

definition hasPrefix :: "string \<Rightarrow> string \<Rightarrow> bool" where
  "hasPrefix s p \<longleftrightarrow> take (length p) s = p"

definition trimPrefix :: "string \<Rightarrow> string \<Rightarrow> string" where
  "trimPrefix s p = (if hasPrefix s p then drop (length p) s else s)"

text \<open>
  \<^verbatim>\<open>if v, ok := s.Attr(a); ok && strings.HasPrefix(v, "og:") {
       if content, ok := s.Attr("content"); ok { og[strings.TrimPrefix(v, "og:")] = content } }\<close>
\<close>

definition handleAttr :: "string \<Rightarrow> attrs \<Rightarrow> snapshot \<Rightarrow> snapshot" where
  "handleAttr a s og =
     (case attr s a of
        None \<Rightarrow> og
      | Some v \<Rightarrow>
          if hasPrefix v ''og:''
          then (case attr s ''content'' of
                  None \<Rightarrow> og
                | Some content \<Rightarrow> AList.update (trimPrefix v ''og:'') content og)
          else og)"

text \<open>The body of the \<^verbatim>\<open>Each\<close> callback: the property attribute first, then the name attribute.\<close>

definition visitMeta :: "attrs \<Rightarrow> snapshot \<Rightarrow> snapshot" where
  "visitMeta s og = handleAttr ''name'' s (handleAttr ''property'' s og)"

definition parseOG :: "(string \<Rightarrow> attrs list) \<Rightarrow> string \<Rightarrow> snapshot" where
  "parseOG findMeta html = fold visitMeta (findMeta html) []"

text \<open>
  The reading of the claim: the key an element carries through the attribute \<open>a\<close> (its value
  with the prefix stripped, when it has the prefix), and what the element contributes at a
  key \<open>k\<close>: its content, when it carries \<open>k\<close> by property or by name and has a content
  attribute.
\<close>

definition ogKey :: "string \<Rightarrow> attrs \<Rightarrow> string option" where
  "ogKey a s =
     (case attr s a of
        None \<Rightarrow> None
      | Some v \<Rightarrow> if take 3 v = ''og:'' then Some (drop 3 v) else None)"

definition carries :: "attrs \<Rightarrow> string \<Rightarrow> bool" where
  "carries s k \<longleftrightarrow> ogKey ''property'' s = Some k \<or> ogKey ''name'' s = Some k"

definition contributes :: "attrs \<Rightarrow> string \<Rightarrow> string option" where
  "contributes s k = (if carries s k then attr s ''content'' else None)"

section \<open>Validation of required tags\<close>

definition essentialTags :: "string list" where
  "essentialTags = [''title'', ''type'', ''image'', ''url'', ''description'']"

definition recommendedTags :: "string list" where
  "recommendedTags =
     essentialTags @ [''site_name'', ''locale'', ''video'', ''audio'', ''article:author'',
       ''article:publisher'', ''article:section'', ''article:tag'']"

text \<open>
  \<^verbatim>\<open>for _, k := range required { if og[k] == "" { missing = append(missing, "og:"+k) } }\<close>
\<close>

definition collectMissing :: "string list \<Rightarrow> snapshot \<Rightarrow> string list" where
  "collectMissing required og =
     fold (\<lambda>k missing. if lookup og k = [] then missing @ [''og:'' @ k] else missing) required []"

text \<open>What \<open>printMissing\<close> writes, without the colours and the glyphs.\<close>

datatype report = MissingHeader nat | MissingTag string | AllPresent

definition requiredTags :: "bool \<Rightarrow> string list" where
  "requiredTags essentialsOnly = (if essentialsOnly then essentialTags else recommendedTags)"

definition printMissing :: "snapshot \<Rightarrow> bool \<Rightarrow> report list \<times> int" where
  "printMissing og essentialsOnly =
     (let required = requiredTags essentialsOnly;
          missing = collectMissing required og
      in if length missing > 0
         then (MissingHeader (length missing) # map MissingTag missing, 1)
         else ([AllPresent], 0))"

section \<open>Errors and the HTTP layer\<close>

datatype error =
    ClientError string
  | HTTPStatus int string
  | DocumentError string
  | NoURLs
  | InspectionFailed
  | RequiredTagsMissing
  | EncodeError string

text \<open>
  What the network gives back for one request: \<open>NoResponse\<close> is the error of
  \<^verbatim>\<open>http.NewRequestWithContext\<close> or of \<^verbatim>\<open>client.Do\<close> (transport error, timeout, cancelled
  context); \<open>Response\<close> carries the status code, the status line, and what goquery makes of
  the body (\<^verbatim>\<open>NewDocumentFromReader\<close> followed by \<^verbatim>\<open>doc.Html()\<close>).
\<close>

datatype http_outcome = NoResponse string | Response int string "error + string"

definition fetchHTML :: "http_outcome \<Rightarrow> error + string" where
  "fetchHTML r =
     (case r of
        NoResponse e \<Rightarrow> Inl (ClientError e)
      | Response code status doc \<Rightarrow>
          if code \<ge> 400 then Inl (HTTPStatus code status) else doc)"

section \<open>Semantic checks\<close>

text \<open>
  A call of the program returns a value, or panics (the Go runtime then ends the process
  with status 2), or blocks and never returns.
\<close>

datatype 'a run = Returns 'a | Panics | Blocks

text \<open>
  What \<open>checkImage\<close> meets outside the repository.  \<open>requestOK\<close>: whether
  \<^verbatim>\<open>http.NewRequestWithContext\<close> accepts the URL; its error is discarded, so the request is
  nil when it does not.  \<open>headResult\<close>: the error of the HEAD request (which is bounded by
  a timeout), or the Content-Length header as \<^verbatim>\<open>strconv.ParseInt\<close> reads it (\<open>None\<close> for an
  empty header).  \<open>getResult\<close>: \<^verbatim>\<open>http.Get\<close> and the read of the body have no timeout and may
  block; otherwise they give an error, or a body that \<^verbatim>\<open>image.DecodeConfig\<close> rejects or decodes
  to a width and a height.  \<open>ratioOff\<close>: the float64 test
  \<^verbatim>\<open>math.Abs(float64(w)/float64(h) - 1.91) > 0.1\<close>.
\<close>

datatype get_outcome = GetBlocks | GetError string | GetImage "string + int \<times> int"

record imageEnv =
  requestOK :: "string \<Rightarrow> bool"
  headResult :: "string + int option"
  getResult :: get_outcome
  ratioOff :: "int \<Rightarrow> int \<Rightarrow> bool"

datatype imageError =
    CannotHead string
  | TooLarge
  | GetFailed string
  | CannotDecode string
  | TooSmall int int
  | BadRatio int int

definition checkImage :: "imageEnv \<Rightarrow> string \<Rightarrow> imageError option run" where
  "checkImage env imgURL =
     (if \<not> requestOK env imgURL then Panics
      else case headResult env of
        Inl e \<Rightarrow> Returns (Some (CannotHead e))
      | Inr cl \<Rightarrow>
          if (case cl of None \<Rightarrow> False | Some n \<Rightarrow> n > 5 * 1024 * 1024)
          then Returns (Some TooLarge)
          else (case getResult env of
                  GetBlocks \<Rightarrow> Blocks
                | GetError e \<Rightarrow> Returns (Some (GetFailed e))
                | GetImage dec \<Rightarrow>
                    (case dec of
                       Inl e \<Rightarrow> Returns (Some (CannotDecode e))
                     | Inr (w, h) \<Rightarrow>
                         if w < 1200 \<or> h < 630 then Returns (Some (TooSmall w h))
                         else if ratioOff env w h then Returns (Some (BadRatio w h))
                         else Returns None)))"

datatype warning = ShouldUseHTTPS | ImageWarning imageError | AuthorMissing | SectionMissing

text \<open>The image block of \<open>semanticValidate\<close>, and the switch on \<^verbatim>\<open>og["type"]\<close> after it.\<close>

definition imageWarnings :: "imageEnv \<Rightarrow> snapshot \<Rightarrow> warning list run" where
  "imageWarnings env og =
     (case map_of og ''image'' of
        None \<Rightarrow> Returns []
      | Some imgURL \<Rightarrow>
          if imgURL \<noteq> []
          then (case checkImage env imgURL of
                  Returns err \<Rightarrow>
                    Returns ((if \<not> hasPrefix imgURL ''https://'' then [ShouldUseHTTPS] else [])
                             @ (case err of None \<Rightarrow> [] | Some e \<Rightarrow> [ImageWarning e]))
                | Panics \<Rightarrow> Panics
                | Blocks \<Rightarrow> Blocks)
          else Returns [])"

definition articleWarnings :: "snapshot \<Rightarrow> warning list" where
  "articleWarnings og =
     (if lookup og ''type'' = ''article''
      then (if lookup og ''article:author'' = [] then [AuthorMissing] else [])
           @ (if lookup og ''article:section'' = [] then [SectionMissing] else [])
      else [])"

definition semanticValidate :: "imageEnv \<Rightarrow> snapshot \<Rightarrow> warning list run" where
  "semanticValidate env og =
     (case imageWarnings env og of
        Returns warns \<Rightarrow> Returns (warns @ articleWarnings og)
      | Panics \<Rightarrow> Panics
      | Blocks \<Rightarrow> Blocks)"

section \<open>What the commands print\<close>

text \<open>
  Standard output is modelled as the list of the blocks written to it, without colours and
  layout: the rows of a table and the lines of a diff are a presentation of the snapshot or
  change set that the block carries.
\<close>

datatype printed =
    FetchFailed string error
  | Heading string
  | Table snapshot
  | Report "report list"
  | Warned warning
  | JSONDocument "(string \<times> snapshot) list"
  | MonitorError error
  | JSONDiff string changeset
  | UnifiedDiff changeset
  | ColouredDiff string changeset

section \<open>The validate command\<close>

text \<open>
  The command prints the warnings of the semantic checks when \<^verbatim>\<open>--semantic\<close> is given, then
  the report of \<open>printMissing\<close>, and returns an error when the fetch failed or the report's
  code is not 0.  \<open>exitStatus\<close> is \<^verbatim>\<open>main\<close>: \<^verbatim>\<open>os.Exit(1)\<close> when the command returned an error,
  status 2 from the runtime after a panic, and no status from a command that never returns.
\<close>

definition validateCmd ::
  "(string \<Rightarrow> attrs list) \<Rightarrow> imageEnv \<Rightarrow> bool \<Rightarrow> bool \<Rightarrow> http_outcome
     \<Rightarrow> (printed list \<times> (error + unit)) run" where
  "validateCmd findMeta env essentialsOnly semantic r =
     (case fetchHTML r of
        Inl err \<Rightarrow> Returns ([], Inl err)
      | Inr html \<Rightarrow>
          let og = parseOG findMeta html
          in case (if semantic then semanticValidate env og else Returns []) of
               Panics \<Rightarrow> Panics
             | Blocks \<Rightarrow> Blocks
             | Returns warns \<Rightarrow>
                 Returns (map Warned warns @ [Report (fst (printMissing og essentialsOnly))],
                          if snd (printMissing og essentialsOnly) \<noteq> 0
                          then Inl RequiredTagsMissing
                          else Inr ()))"

definition exitStatus :: "(printed list \<times> (error + unit)) run \<Rightarrow> int option" where
  "exitStatus res =
     (case res of
        Returns (lines, Inl err) \<Rightarrow> Some 1
      | Returns (lines, Inr u) \<Rightarrow> Some 0
      | Panics \<Rightarrow> Some 2
      | Blocks \<Rightarrow> None)"

section \<open>The monitor command\<close>

record event =
  ev_ts :: string
  ev_og :: snapshot

text \<open>
  The body of the render loop for one received event: the diff against the baseline, one
  rendering when the diff is not empty (by the first of the modes \<^verbatim>\<open>jsonDiff\<close>, \<^verbatim>\<open>unified\<close>,
  coloured text that applies), and then \<^verbatim>\<open>prev = ev.og\<close>.
\<close>

definition renderDiff :: "bool \<Rightarrow> bool \<Rightarrow> string \<Rightarrow> changeset \<Rightarrow> printed" where
  "renderDiff jsonDiff unified t diff =
     (if jsonDiff then JSONDiff t diff
      else if unified then UnifiedDiff diff
      else ColouredDiff t diff)"

definition renderEvent ::
  "bool \<Rightarrow> bool \<Rightarrow> event \<Rightarrow> snapshot \<times> printed list \<Rightarrow> snapshot \<times> printed list" where
  "renderEvent jsonDiff unified ev st =
     (let diff = diffMaps (fst st) (ev_og ev)
      in (ev_og ev,
          if length diff > 0 then snd st @ [renderDiff jsonDiff unified (ev_ts ev) diff]
          else snd st))"

text \<open>
  The goroutines of the command, as a transition system.  The control goroutine sits in its
  \<^verbatim>\<open>select\<close> (\<open>ctlRunning\<close>); every tick it takes starts one fetch goroutine, which is
  \<open>Fetching\<close>, then at its send \<^verbatim>\<open>diffChan <- event{...}\<close> (\<open>Delivering\<close>), then \<open>Finished\<close>.
  The render loop ranges over the unbuffered channel until it is closed (\<open>rendering\<close>); it
  owns the baseline \<open>prev\<close>.  A send on a closed channel is a Go panic (\<open>panicked\<close>), which
  ends the process.  The state starts where both loops are about to start.
\<close>

datatype fetch = Fetching | Delivering event | Finished

record monitor =
  ctlRunning :: bool
  cancelled :: bool
  fetches :: "fetch list"
  chanClosed :: bool
  rendering :: bool
  prev :: snapshot
  out :: "printed list"
  panicked :: bool

definition monitorInit :: monitor where
  "monitorInit =
     \<lparr>ctlRunning = True, cancelled = False, fetches = [], chanClosed = False,
      rendering = True, prev = [], out = [], panicked = False\<rparr>"

text \<open>
  The steps a scheduler and the environment can take: the ticker fires and the control loop
  takes the tick; the context is cancelled; the control loop takes \<^verbatim>\<open>ctx.Done()\<close>; the
  request of fetch goroutine \<open>i\<close> comes back (with the time then read for the event); the send
  of goroutine \<open>i\<close> takes place; the render loop sees the closed channel.  \<open>None\<close>: the step is
  not possible in this state.
\<close>

datatype action =
    Tick
  | Cancel
  | SelectDone
  | FetchDone nat http_outcome string
  | Deliver nat
  | RangeEnd

fun monitorStep ::
  "(string \<Rightarrow> attrs list) \<Rightarrow> bool \<Rightarrow> bool \<Rightarrow> action \<Rightarrow> monitor \<Rightarrow> monitor option" where
  "monitorStep findMeta jsonDiff unified Tick s =
     (if panicked s \<or> \<not> ctlRunning s then None
      else Some (s\<lparr>fetches := fetches s @ [Fetching]\<rparr>))"
| "monitorStep findMeta jsonDiff unified Cancel s =
     (if panicked s then None else Some (s\<lparr>cancelled := True\<rparr>))"
| "monitorStep findMeta jsonDiff unified SelectDone s =
     (if panicked s \<or> \<not> ctlRunning s \<or> \<not> cancelled s then None
      else Some (s\<lparr>chanClosed := True, ctlRunning := False\<rparr>))"
| "monitorStep findMeta jsonDiff unified (FetchDone i r t) s =
     (if panicked s \<or> length (fetches s) \<le> i then None
      else case fetches s ! i of
        Fetching \<Rightarrow>
          (case fetchHTML r of
             Inl err \<Rightarrow>
               Some (s\<lparr>out := out s @ [MonitorError err],
                        fetches := (fetches s)[i := Finished]\<rparr>)
           | Inr html \<Rightarrow>
               Some (s\<lparr>fetches :=
                          (fetches s)[i := Delivering \<lparr>ev_ts = t, ev_og = parseOG findMeta html\<rparr>]\<rparr>))
      | Delivering ev \<Rightarrow> None
      | Finished \<Rightarrow> None)"
| "monitorStep findMeta jsonDiff unified (Deliver i) s =
     (if panicked s \<or> length (fetches s) \<le> i then None
      else case fetches s ! i of
        Fetching \<Rightarrow> None
      | Delivering ev \<Rightarrow>
          if chanClosed s then Some (s\<lparr>panicked := True\<rparr>)
          else if rendering s
          then (let st = renderEvent jsonDiff unified ev (prev s, out s)
                in Some (s\<lparr>prev := fst st, out := snd st,
                            fetches := (fetches s)[i := Finished]\<rparr>))
          else None
      | Finished \<Rightarrow> None)"
| "monitorStep findMeta jsonDiff unified RangeEnd s =
     (if panicked s \<or> \<not> chanClosed s \<or> \<not> rendering s then None
      else Some (s\<lparr>rendering := False\<rparr>))"

fun monitorRun ::
  "(string \<Rightarrow> attrs list) \<Rightarrow> bool \<Rightarrow> bool \<Rightarrow> action list \<Rightarrow> monitor \<Rightarrow> monitor option" where
  "monitorRun findMeta jsonDiff unified [] s = Some s"
| "monitorRun findMeta jsonDiff unified (a # as) s =
     (case monitorStep findMeta jsonDiff unified a s of
        None \<Rightarrow> None
      | Some s' \<Rightarrow> monitorRun findMeta jsonDiff unified as s')"

section \<open>The inspect command\<close>

record result =
  res_url :: string
  res_og :: snapshot
  res_err :: "error option"

text \<open>
  The number of workers spawned, from the \<^verbatim>\<open>--workers\<close> flag, \<^verbatim>\<open>runtime.NumCPU()\<close> and
  \<^verbatim>\<open>len(urls)\<close>.
\<close>

definition workerCount :: "int \<Rightarrow> int \<Rightarrow> nat \<Rightarrow> int" where
  "workerCount workersFlag numCPU n =
     (let w = (if workersFlag \<le> 0 then numCPU else workersFlag)
      in if w > int n then int n else w)"

text \<open>What a worker makes of one URL taken from the task channel.\<close>

definition fetchResult :: "(string \<Rightarrow> attrs list) \<Rightarrow> string \<Rightarrow> http_outcome \<Rightarrow> result" where
  "fetchResult findMeta u r =
     (case fetchHTML r of
        Inl err \<Rightarrow> \<lparr>res_url = u, res_og = [], res_err = Some err\<rparr>
      | Inr html \<Rightarrow> \<lparr>res_url = u, res_og = parseOG findMeta html, res_err = None\<rparr>)"

text \<open>
  The goroutines of the pool, as a transition system.  The feeder sends the URLs in order on
  the unbuffered channel \<^verbatim>\<open>tasks\<close> and then closes it (\<open>toFeed\<close> are the URLs not yet sent).
  A worker is \<open>Idle\<close> at its receive \<^verbatim>\<open>range tasks\<close>, \<open>Busy\<close> in \<open>fetchHTML\<close>, \<open>Emitting\<close> at its
  send on the unbuffered channel \<^verbatim>\<open>results\<close>, and \<open>Returned\<close> after its loop has ended and
  \<^verbatim>\<open>wg.Done()\<close> has run.  The closer closes \<^verbatim>\<open>results\<close> when \<^verbatim>\<open>wg.Wait()\<close> returns.  The
  aggregator receives until \<^verbatim>\<open>results\<close> is closed (\<open>received\<close>, in the order of receipt).  A send
  on a closed channel is a Go panic (\<open>crashed\<close>).
\<close>

datatype worker = Idle | Busy string | Emitting result | Returned

record pool =
  toFeed :: "string list"
  tasksClosed :: bool
  workers :: "worker list"
  resultsClosed :: bool
  received :: "result list"
  crashed :: bool

definition poolInit :: "string list \<Rightarrow> nat \<Rightarrow> pool" where
  "poolInit urls n =
     \<lparr>toFeed = urls, tasksClosed = False, workers = replicate n Idle,
      resultsClosed = False, received = [], crashed = False\<rparr>"

text \<open>
  The command up to the start of the goroutines: an empty URL list is rejected before any
  of them exists.
\<close>

definition inspectStart :: "int \<Rightarrow> int \<Rightarrow> string list \<Rightarrow> error + pool" where
  "inspectStart workersFlag numCPU urls =
     (if length urls = 0 then Inl NoURLs
      else Inr (poolInit urls (nat (workerCount workersFlag numCPU (length urls)))))"

text \<open>
  The steps: worker \<open>i\<close> receives the next URL from the feeder; the feeder closes \<^verbatim>\<open>tasks\<close>;
  the request of worker \<open>i\<close> comes back; the aggregator receives the result of worker \<open>i\<close>;
  worker \<open>i\<close> finds \<^verbatim>\<open>tasks\<close> closed and returns; the closer closes \<^verbatim>\<open>results\<close>.
\<close>

datatype poolAction =
    Feed nat
  | CloseTasks
  | Fetched nat http_outcome
  | Collect nat
  | Return nat
  | CloseResults

fun poolStep :: "(string \<Rightarrow> attrs list) \<Rightarrow> poolAction \<Rightarrow> pool \<Rightarrow> pool option" where
  "poolStep findMeta (Feed i) s =
     (if crashed s \<or> length (workers s) \<le> i then None
      else case toFeed s of
        [] \<Rightarrow> None
      | u # rest \<Rightarrow>
          (case workers s ! i of
             Idle \<Rightarrow> Some (s\<lparr>toFeed := rest, workers := (workers s)[i := Busy u]\<rparr>)
           | Busy v \<Rightarrow> None
           | Emitting res \<Rightarrow> None
           | Returned \<Rightarrow> None))"
| "poolStep findMeta CloseTasks s =
     (if crashed s \<or> toFeed s \<noteq> [] \<or> tasksClosed s then None
      else Some (s\<lparr>tasksClosed := True\<rparr>))"
| "poolStep findMeta (Fetched i r) s =
     (if crashed s \<or> length (workers s) \<le> i then None
      else case workers s ! i of
        Idle \<Rightarrow> None
      | Busy u \<Rightarrow> Some (s\<lparr>workers := (workers s)[i := Emitting (fetchResult findMeta u r)]\<rparr>)
      | Emitting res \<Rightarrow> None
      | Returned \<Rightarrow> None)"
| "poolStep findMeta (Collect i) s =
     (if crashed s \<or> length (workers s) \<le> i then None
      else case workers s ! i of
        Idle \<Rightarrow> None
      | Busy u \<Rightarrow> None
      | Emitting res \<Rightarrow>
          if resultsClosed s then Some (s\<lparr>crashed := True\<rparr>)
          else Some (s\<lparr>received := received s @ [res], workers := (workers s)[i := Idle]\<rparr>)
      | Returned \<Rightarrow> None)"
| "poolStep findMeta (Return i) s =
     (if crashed s \<or> length (workers s) \<le> i then None
      else case workers s ! i of
        Idle \<Rightarrow> if tasksClosed s then Some (s\<lparr>workers := (workers s)[i := Returned]\<rparr>) else None
      | Busy u \<Rightarrow> None
      | Emitting res \<Rightarrow> None
      | Returned \<Rightarrow> None)"
| "poolStep findMeta CloseResults s =
     (if crashed s \<or> resultsClosed s \<or> \<not> list_all (\<lambda>w. w = Returned) (workers s) then None
      else Some (s\<lparr>resultsClosed := True\<rparr>))"

fun poolRun :: "(string \<Rightarrow> attrs list) \<Rightarrow> poolAction list \<Rightarrow> pool \<Rightarrow> pool option" where
  "poolRun findMeta [] s = Some s"
| "poolRun findMeta (a # as) s =
     (case poolStep findMeta a s of
        None \<Rightarrow> None
      | Some s' \<Rightarrow> poolRun findMeta as s')"

text \<open>
  The aggregator: the body of its loop for one result, and the end of the command.  The body
  only touches the aggregator's own variables, so it is run here over the results in the
  order of their receipt.  \<open>encodeErr\<close> is the error of writing the JSON document to standard
  output, if any.
\<close>

record summary =
  exitCode :: int
  aggregated :: "(string \<times> snapshot) list"
  shown :: "printed list"

definition aggregate :: "bool \<Rightarrow> result \<Rightarrow> summary \<Rightarrow> summary" where
  "aggregate jsonOut r a =
     (case res_err r of
        Some err \<Rightarrow> a\<lparr>shown := shown a @ [FetchFailed (res_url r) err], exitCode := 1\<rparr>
      | None \<Rightarrow>
          if jsonOut then a\<lparr>aggregated := AList.update (res_url r) (res_og r) (aggregated a)\<rparr>
          else a\<lparr>shown := shown a @ [Heading (res_url r), Table (res_og r),
                                       Report (fst (printMissing (res_og r) False))]\<rparr>)"

definition summaryInit :: summary where
  "summaryInit = \<lparr>exitCode = 0, aggregated = [], shown = []\<rparr>"

definition inspectFinish :: "bool \<Rightarrow> string option \<Rightarrow> summary \<Rightarrow> printed list \<times> (error + unit)" where
  "inspectFinish jsonOut encodeErr a =
     (case (if jsonOut then encodeErr else None) of
        Some e \<Rightarrow> (shown a, Inl (EncodeError e))
      | None \<Rightarrow>
          (shown a @ (if jsonOut then [JSONDocument (aggregated a)] else []),
           if exitCode a \<noteq> 0 then Inl InspectionFailed else Inr ()))"

definition inspectResults :: "bool \<Rightarrow> string option \<Rightarrow> result list \<Rightarrow> printed list \<times> (error + unit)" where
  "inspectResults jsonOut encodeErr rs =
     inspectFinish jsonOut encodeErr (fold (aggregate jsonOut) rs summaryInit)"

text \<open>
  For the proofs about the pool: the URL a worker holds, a count of the steps a state still
  has in it, and the invariant of the reachable states.
\<close>

fun holding :: "worker \<Rightarrow> string multiset" where
  "holding Idle = {#}"
| "holding (Busy u) = {#u#}"
| "holding (Emitting res) = {#res_url res#}"
| "holding Returned = {#}"

fun stepsLeft :: "worker \<Rightarrow> nat" where
  "stepsLeft Idle = 1"
| "stepsLeft (Busy u) = 3"
| "stepsLeft (Emitting res) = 2"
| "stepsLeft Returned = 0"

definition poolMeasure :: "pool \<Rightarrow> nat" where
  "poolMeasure s =
     3 * length (toFeed s) + sum_list (map stepsLeft (workers s))
     + (if tasksClosed s then 0 else 1) + (if resultsClosed s then 0 else 1)"

definition poolInv :: "string list \<Rightarrow> pool \<Rightarrow> bool" where
  "poolInv urls s \<longleftrightarrow>
     mset (map res_url (received s)) + sum_list (map holding (workers s)) + mset (toFeed s)
       = mset urls
     \<and> (tasksClosed s \<longrightarrow> toFeed s = [])
     \<and> (resultsClosed s \<longrightarrow> list_all (\<lambda>w. w = Returned) (workers s))
     \<and> (Returned \<in> set (workers s) \<longrightarrow> tasksClosed s)
     \<and> \<not> crashed s"

section \<open>Properties of the differ\<close>

lemma addKeys_keys: "fst ` set (addKeys m keys) = fst ` set m \<union> fst ` set keys"
  unfolding addKeys_def
proof (induction m arbitrary: keys)
  case Nil
  show ?case by simp
next
  case (Cons e m)
  obtain k u where e: "e = (k, u)" by (cases e)
  have "fst ` set (fold (\<lambda>(k, _) ks. AList.update k () ks) (e # m) keys) =
        fst ` set m \<union> fst ` set (AList.update k () keys)"
    unfolding e by (simp add: Cons.IH)
  also have "\<dots> = fst ` set (e # m) \<union> fst ` set keys"
    unfolding e by (simp add: dom_update)
  finally show ?case .
qed

lemma compareKey_map_of:
  "map_of (compareKey old new k' acc) k =
     (if k = k' \<and> lookup old k \<noteq> lookup new k
      then Some (lookup old k, lookup new k)
      else map_of acc k)"
  by (auto simp: compareKey_def update_conv')

lemma compare_fold_map_of:
  "map_of (fold (\<lambda>(k, _) diff. compareKey old new k diff) keys acc) k =
     (if k \<in> fst ` set keys \<and> lookup old k \<noteq> lookup new k
      then Some (lookup old k, lookup new k)
      else map_of acc k)"
proof (induction keys arbitrary: acc)
  case Nil
  show ?case by simp
next
  case (Cons e keys)
  obtain k' u where e: "e = (k', u)" by (cases e)
  have "map_of (fold (\<lambda>(k, _) diff. compareKey old new k diff) (e # keys) acc) k =
        map_of (fold (\<lambda>(k, _) diff. compareKey old new k diff) keys (compareKey old new k' acc)) k"
    unfolding e by simp
  also have "\<dots> = (if k \<in> fst ` set keys \<and> lookup old k \<noteq> lookup new k
      then Some (lookup old k, lookup new k)
      else map_of (compareKey old new k' acc) k)"
    by (rule Cons.IH)
  also have "\<dots> = (if k \<in> fst ` set (e # keys) \<and> lookup old k \<noteq> lookup new k
      then Some (lookup old k, lookup new k)
      else map_of acc k)"
    unfolding e by (auto simp: compareKey_map_of)
  finally show ?case .
qed

lemma compare_fold_distinct:
  "distinct (map fst acc) \<Longrightarrow>
   distinct (map fst (fold (\<lambda>(k, _) diff. compareKey old new k diff) keys acc))"
proof (induction keys arbitrary: acc)
  case Nil
  then show ?case by simp
next
  case (Cons e keys)
  obtain k' u where e: "e = (k', u)" by (cases e)
  have "distinct (map fst (compareKey old new k' acc))"
    using Cons.prems by (simp add: compareKey_def distinct_update)
  then show ?case
    unfolding e by (simp add: Cons.IH)
qed

lemma diffMaps_map_of:
  "map_of (diffMaps old new) k =
     (if k \<in> fst ` set old \<union> fst ` set new \<and> lookup old k \<noteq> lookup new k
      then Some (lookup old k, lookup new k)
      else None)"
  unfolding diffMaps_def Let_def
  by (simp add: compare_fold_map_of addKeys_keys)

lemma diffMaps_distinct: "distinct (map fst (diffMaps old new))"
  unfolding diffMaps_def Let_def
  by (rule compare_fold_distinct) simp

lemma diffMaps_keys:
  "fst ` set (diffMaps old new) =
     {k \<in> fst ` set old \<union> fst ` set new. lookup old k \<noteq> lookup new k}"
proof -
  have "fst ` set (diffMaps old new) = dom (map_of (diffMaps old new))"
    by (simp add: dom_map_of_conv_image_fst)
  also have "\<dots> = {k \<in> fst ` set old \<union> fst ` set new. lookup old k \<noteq> lookup new k}"
    by (auto simp: dom_def diffMaps_map_of)
  finally show ?thesis .
qed

lemma lookup_absent: "k \<notin> fst ` set m \<Longrightarrow> lookup m k = []"
  by (simp add: lookup_def map_of_eq_None_iff [symmetric])

lemma diffMaps_same: "diffMaps m m = []"
proof -
  have "fst ` set (diffMaps m m) = {}"
    by (simp add: diffMaps_keys)
  then show ?thesis by simp
qed


section \<open>Claims about the differ\<close>

text \<open>
  C2. For every pair of snapshots, the key set of \<open>diffMaps old new\<close> is exactly the set of
  keys of the union of both key sets at which the two reads differ, an absent key being read
  as the empty string; every entry of the result is the pair (old value, new value) of its
  key, and no key occurs twice.
\<close>

theorem diffMaps_key_set_and_pairs:
  "fst ` set (diffMaps old new) =
     {k \<in> fst ` set old \<union> fst ` set new. lookup old k \<noteq> lookup new k}
   \<and> (\<forall>k v. (k, v) \<in> set (diffMaps old new) \<longrightarrow> v = (lookup old k, lookup new k))
   \<and> distinct (map fst (diffMaps old new))"
proof (intro conjI allI impI)
  show "fst ` set (diffMaps old new) =
     {k \<in> fst ` set old \<union> fst ` set new. lookup old k \<noteq> lookup new k}"
    by (rule diffMaps_keys)
next
  fix k v
  assume "(k, v) \<in> set (diffMaps old new)"
  then have "map_of (diffMaps old new) k = Some v"
    using diffMaps_distinct by (simp add: map_of_eq_Some_iff)
  then show "v = (lookup old k, lookup new k)"
    by (simp add: diffMaps_map_of split: if_splits)
next
  show "distinct (map fst (diffMaps old new))"
    by (rule diffMaps_distinct)
qed

theorem diffMaps_key_set_and_pairs_witness:
  "(''title'', (''Old'', ''New''))
     \<in> set (diffMaps [(''title'', ''Old''), (''image'', ''A'')]
                      [(''title'', ''New''), (''image'', ''A''), (''type'', ''article'')])
   \<and> fst ` set (diffMaps [(''title'', ''Old''), (''image'', ''A'')]
                      [(''title'', ''New''), (''image'', ''A''), (''type'', ''article'')])
     = {k \<in> fst ` set [(''title'', ''Old''), (''image'', ''A'')]
             \<union> fst ` set [(''title'', ''New''), (''image'', ''A''), (''type'', ''article'')].
          lookup [(''title'', ''Old''), (''image'', ''A'')] k
            \<noteq> lookup [(''title'', ''New''), (''image'', ''A''), (''type'', ''article'')] k}"
  using diffMaps_key_set_and_pairs
          [of "[(''title'', ''Old''), (''image'', ''A'')]"
              "[(''title'', ''New''), (''image'', ''A''), (''type'', ''article'')]"]
  by (simp add: diffMaps_def addKeys_def compareKey_def lookup_def)

text \<open>
  C7, as stated, fails: a key that is present in only one snapshot and whose value there is
  the empty string reads the same on both sides, so it is left out of the change set.
\<close>

theorem diffMaps_one_sided_empty_counterexample:
  "''title'' \<in> fst ` set [(''title'', [])]
   \<and> ''title'' \<notin> fst ` set ([] :: snapshot)
   \<and> ''title'' \<notin> fst ` set (diffMaps [(''title'', [])] [])"
  by (simp add: diffMaps_def addKeys_def compareKey_def lookup_def)

text \<open>
  C7, amended. Every key that is present in only one of the two snapshots and whose value
  there is not the empty string appears in the change set, the missing side being the empty
  string: a removed key maps to (old value, empty), a new key to (empty, new value).
\<close>

theorem diffMaps_one_sided_key:
  "(k \<in> fst ` set old \<and> k \<notin> fst ` set new \<and> lookup old k \<noteq> []
      \<longrightarrow> map_of (diffMaps old new) k = Some (lookup old k, []))
   \<and> (k \<notin> fst ` set old \<and> k \<in> fst ` set new \<and> lookup new k \<noteq> []
      \<longrightarrow> map_of (diffMaps old new) k = Some ([], lookup new k))"
proof (intro conjI impI)
  assume removed: "k \<in> fst ` set old \<and> k \<notin> fst ` set new \<and> lookup old k \<noteq> []"
  then have "lookup new k = []"
    by (simp add: lookup_absent)
  with removed show "map_of (diffMaps old new) k = Some (lookup old k, [])"
    by (simp add: diffMaps_map_of)
next
  assume added: "k \<notin> fst ` set old \<and> k \<in> fst ` set new \<and> lookup new k \<noteq> []"
  then have "lookup old k = []"
    by (simp add: lookup_absent)
  with added show "map_of (diffMaps old new) k = Some ([], lookup new k)"
    by (auto simp: diffMaps_map_of)
qed

theorem diffMaps_one_sided_key_witness:
  "''type'' \<notin> fst ` set [(''title'', ''Old''), (''image'', ''A'')]
   \<and> ''type'' \<in> fst ` set [(''title'', ''New''), (''image'', ''A''), (''type'', ''article'')]
   \<and> lookup [(''title'', ''New''), (''image'', ''A''), (''type'', ''article'')] ''type'' \<noteq> []
   \<and> map_of (diffMaps [(''title'', ''Old''), (''image'', ''A'')]
                       [(''title'', ''New''), (''image'', ''A''), (''type'', ''article'')])
        ''type'' = Some ([], ''article'')"
  using diffMaps_one_sided_key
          [of "''type''" "[(''title'', ''Old''), (''image'', ''A'')]"
              "[(''title'', ''New''), (''image'', ''A''), (''type'', ''article'')]"]
  by (simp add: lookup_def)

text \<open>
  C9. For all snapshots \<open>a\<close> and \<open>b\<close>, \<open>diffMaps b a\<close> has exactly the keys of
  \<open>diffMaps a b\<close>, and at each key its pair is the pair of \<open>diffMaps a b\<close> with the two
  components swapped.
\<close>

theorem diffMaps_reversed:
  "fst ` set (diffMaps b a) = fst ` set (diffMaps a b)
   \<and> map_of (diffMaps b a) k = map_option prod.swap (map_of (diffMaps a b) k)"
proof
  show "fst ` set (diffMaps b a) = fst ` set (diffMaps a b)"
    by (auto simp: diffMaps_keys)
next
  show "map_of (diffMaps b a) k = map_option prod.swap (map_of (diffMaps a b) k)"
    by (auto simp: diffMaps_map_of)
qed

theorem diffMaps_reversed_witness:
  "map_of (diffMaps [(''title'', ''New''), (''type'', ''article'')] [(''title'', ''Old'')]) ''type''
     = Some (''article'', [])
   \<and> map_of (diffMaps [(''title'', ''Old'')] [(''title'', ''New''), (''type'', ''article'')]) ''type''
     = Some ([], ''article'')"
  using diffMaps_reversed
          [of "[(''title'', ''New''), (''type'', ''article'')]" "[(''title'', ''Old'')]" "''type''"]
  by (simp add: diffMaps_def addKeys_def compareKey_def lookup_def)

section \<open>Properties of the extractor\<close>

lemma hasPrefix_og: "hasPrefix v ''og:'' \<longleftrightarrow> take 3 v = ''og:''"
  by (simp add: hasPrefix_def numeral_3_eq_3)

lemma trimPrefix_og: "take 3 v = ''og:'' \<Longrightarrow> trimPrefix v ''og:'' = drop 3 v"
  by (simp add: trimPrefix_def hasPrefix_def numeral_3_eq_3)

lemma handleAttr_map_of:
  "map_of (handleAttr a s og) k =
     (if ogKey a s = Some k \<and> attr s ''content'' \<noteq> None then attr s ''content'' else map_of og k)"
  by (auto simp: handleAttr_def ogKey_def hasPrefix_og trimPrefix_og update_conv'
           split: option.splits)

lemma visitMeta_map_of:
  "map_of (visitMeta s og) k =
     (case contributes s k of Some c \<Rightarrow> Some c | None \<Rightarrow> map_of og k)"
  by (auto simp: visitMeta_def handleAttr_map_of contributes_def carries_def split: option.splits)

lemma fold_visitMeta_snoc:
  "map_of (fold visitMeta (ms @ [s]) og) k =
     (case contributes s k of Some c \<Rightarrow> Some c | None \<Rightarrow> map_of (fold visitMeta ms og) k)"
  by (simp add: visitMeta_map_of)

lemma fold_visitMeta_last:
  "contributes s k = Some c \<Longrightarrow> \<forall>t \<in> set post. contributes t k = None \<Longrightarrow>
   map_of (fold visitMeta (pre @ s # post) og) k = Some c"
proof (induction post rule: rev_induct)
  case Nil
  then show ?case
    using fold_visitMeta_snoc [of pre s og k] by simp
next
  case (snoc t post)
  have "map_of (fold visitMeta ((pre @ s # post) @ [t]) og) k =
        map_of (fold visitMeta (pre @ s # post) og) k"
    using snoc.prems(2) by (simp only: fold_visitMeta_snoc) simp
  then show ?case
    using snoc by simp
qed

lemma fold_visitMeta_none:
  "\<forall>t \<in> set ms. contributes t k = None \<Longrightarrow> map_of (fold visitMeta ms og) k = map_of og k"
proof (induction ms rule: rev_induct)
  case Nil
  show ?case by simp
next
  case (snoc t ms)
  then show ?case by (simp only: fold_visitMeta_snoc) simp
qed

lemma fold_visitMeta_skip:
  "fold visitMeta (filter (\<lambda>s. attr s ''content'' \<noteq> None) ms) og = fold visitMeta ms og"
proof (induction ms arbitrary: og)
  case Nil
  show ?case by simp
next
  case (Cons s ms)
  show ?case
  proof (cases "attr s ''content''")
    case None
    then have "visitMeta s og = og"
      by (simp add: visitMeta_def handleAttr_def split: option.splits)
    with None show ?thesis using Cons.IH [of og] by simp
  next
    case (Some c)
    then show ?thesis using Cons.IH [of "visitMeta s og"] by simp
  qed
qed

lemma fold_visitMeta_dom:
  "map_of (fold visitMeta ms og) k \<noteq> None \<longleftrightarrow>
     (\<exists>s \<in> set ms. contributes s k \<noteq> None) \<or> map_of og k \<noteq> None"
proof (induction ms rule: rev_induct)
  case Nil
  show ?case by simp
next
  case (snoc t ms)
  show ?case
  proof (cases "contributes t k")
    case None
    then have "map_of (fold visitMeta (ms @ [t]) og) k = map_of (fold visitMeta ms og) k"
      by (simp only: fold_visitMeta_snoc) simp
    with None snoc show ?thesis by auto
  next
    case (Some c)
    then have "map_of (fold visitMeta (ms @ [t]) og) k = Some c"
      by (simp only: fold_visitMeta_snoc) simp
    with Some show ?thesis by auto
  qed
qed

lemma parseOG_key_iff:
  "k \<in> fst ` set (parseOG findMeta html) \<longleftrightarrow>
     (\<exists>s \<in> set (findMeta html). carries s k \<and> attr s ''content'' \<noteq> None)"
proof -
  have "k \<in> fst ` set (parseOG findMeta html) \<longleftrightarrow> map_of (parseOG findMeta html) k \<noteq> None"
    by (simp add: map_of_eq_None_iff)
  also have "\<dots> \<longleftrightarrow> (\<exists>s \<in> set (findMeta html). contributes s k \<noteq> None)"
    unfolding parseOG_def by (simp only: fold_visitMeta_dom) simp
  also have "\<dots> \<longleftrightarrow> (\<exists>s \<in> set (findMeta html). carries s k \<and> attr s ''content'' \<noteq> None)"
    by (auto simp: contributes_def split: if_splits)
  finally show ?thesis .
qed

text \<open>
  C8. For every HTML document string (and whatever the parser makes of it), \<open>parseOG\<close> has an
  entry at a key exactly when some meta element carries that key, by property or by name with
  the prefix stripped, and has a content attribute; elements without a content attribute
  change nothing, and no document raises an error (the function is total); at a key that
  occurs more than once, the content of the last element carrying it with a content attribute
  is the value.
\<close>

theorem parseOG_entries:
  "(\<forall>k. k \<in> fst ` set (parseOG findMeta html) \<longleftrightarrow>
         (\<exists>s \<in> set (findMeta html). carries s k \<and> attr s ''content'' \<noteq> None))
   \<and> parseOG findMeta html =
       fold visitMeta (filter (\<lambda>s. attr s ''content'' \<noteq> None) (findMeta html)) []
   \<and> (\<forall>pre s post k c.
         findMeta html = pre @ s # post \<and> carries s k \<and> attr s ''content'' = Some c
         \<and> (\<forall>t \<in> set post. carries t k \<longrightarrow> attr t ''content'' = None)
         \<longrightarrow> map_of (parseOG findMeta html) k = Some c)"
proof (intro conjI allI impI)
  fix k
  show "k \<in> fst ` set (parseOG findMeta html) \<longleftrightarrow>
         (\<exists>s \<in> set (findMeta html). carries s k \<and> attr s ''content'' \<noteq> None)"
    by (rule parseOG_key_iff)
next
  show "parseOG findMeta html =
       fold visitMeta (filter (\<lambda>s. attr s ''content'' \<noteq> None) (findMeta html)) []"
    unfolding parseOG_def by (simp only: fold_visitMeta_skip)
next
  fix pre s post k c
  assume a: "findMeta html = pre @ s # post \<and> carries s k \<and> attr s ''content'' = Some c
         \<and> (\<forall>t \<in> set post. carries t k \<longrightarrow> attr t ''content'' = None)"
  then have "contributes s k = Some c" and "\<forall>t \<in> set post. contributes t k = None"
    by (auto simp: contributes_def)
  then have "map_of (fold visitMeta (pre @ s # post) []) k = Some c"
    by (rule fold_visitMeta_last)
  with a show "map_of (parseOG findMeta html) k = Some c"
    by (simp add: parseOG_def)
qed

theorem parseOG_entries_witness:
  "map_of (parseOG (\<lambda>_. [[(''property'', ''og:title''), (''content'', ''Hello'')],
                          [(''name'', ''og:title'')],
                          [(''content'', ''Bye''), (''name'', ''og:title'')],
                          [(''property'', ''og:type''), (''content'', ''article'')]]) ''<html>'')
     ''title'' = Some ''Bye''"
proof -
  let ?ms = "[[(''property'', ''og:title''), (''content'', ''Hello'')],
              [(''name'', ''og:title'')],
              [(''content'', ''Bye''), (''name'', ''og:title'')],
              [(''property'', ''og:type''), (''content'', ''article'')]]"
  have split: "(\<lambda>_. ?ms) ''<html>'' =
      [[(''property'', ''og:title''), (''content'', ''Hello'')], [(''name'', ''og:title'')]]
      @ [(''content'', ''Bye''), (''name'', ''og:title'')]
      # [[(''property'', ''og:type''), (''content'', ''article'')]]"
    by simp
  have c: "carries [(''content'', ''Bye''), (''name'', ''og:title'')] ''title''"
    by (simp add: carries_def ogKey_def attr_def)
  have v: "attr [(''content'', ''Bye''), (''name'', ''og:title'')] ''content'' = Some ''Bye''"
    by (simp add: attr_def)
  have l: "\<forall>t \<in> set [[(''property'', ''og:type''), (''content'', ''article'')]].
             carries t ''title'' \<longrightarrow> attr t ''content'' = None"
    by (simp add: carries_def ogKey_def attr_def)
  show ?thesis
    using parseOG_entries [of "\<lambda>_. ?ms" "''<html>''"] split c v l by blast
qed

section \<open>Properties of the validation\<close>

lemma collectMissing_snoc:
  "collectMissing (req @ [k]) og =
     collectMissing req og @ (if lookup og k = [] then [''og:'' @ k] else [])"
  by (simp add: collectMissing_def)

lemma collectMissing_eq:
  "collectMissing required og = map (\<lambda>k. ''og:'' @ k) (filter (\<lambda>k. lookup og k = []) required)"
proof (induction required rule: rev_induct)
  case Nil
  show ?case by (simp add: collectMissing_def)
next
  case (snoc k required)
  then show ?case by (simp add: collectMissing_snoc)
qed


lemma collectMissing_set:
  "set (collectMissing required og) = {''og:'' @ k | k. k \<in> set required \<and> lookup og k = []}"
  by (auto simp: collectMissing_eq)

lemma printMissing_code:
  "snd (printMissing og e) = (if \<exists>k \<in> set (requiredTags e). lookup og k = [] then 1 else 0)"
proof -
  have "collectMissing (requiredTags e) og \<noteq> [] \<longleftrightarrow> (\<exists>k \<in> set (requiredTags e). lookup og k = [])"
    by (auto simp: collectMissing_eq filter_empty_conv)
  then show ?thesis
    by (simp add: printMissing_def Let_def)
qed

lemma lookup_empty_iff: "lookup og k = [] \<longleftrightarrow> map_of og k = None \<or> map_of og k = Some []"
  by (simp add: lookup_def split: option.splits)

lemma printMissing_report:
  "printMissing og e =
     (if \<exists>k \<in> set (requiredTags e). lookup og k = []
      then (MissingHeader (length (filter (\<lambda>k. lookup og k = []) (requiredTags e)))
              # map (\<lambda>k. MissingTag (''og:'' @ k)) (filter (\<lambda>k. lookup og k = []) (requiredTags e)),
            1)
      else ([AllPresent], 0))"
proof -
  have "collectMissing (requiredTags e) og = [] \<longleftrightarrow> \<not> (\<exists>k \<in> set (requiredTags e). lookup og k = [])"
    by (auto simp: collectMissing_eq filter_empty_conv)
  then show ?thesis
    by (auto simp: printMissing_def Let_def collectMissing_eq comp_def)
qed

lemma printMissing_reports_tag:
  "MissingTag (''og:'' @ k) \<in> set (fst (printMissing og e))
     \<longleftrightarrow> k \<in> set (requiredTags e) \<and> lookup og k = []"
  by (auto simp: printMissing_report)

lemma validateCmd_reaches_check:
  assumes "fetchHTML r = Inr html"
    and "(if semantic then semanticValidate env (parseOG findMeta html) else Returns []) = Returns warns"
  shows "validateCmd findMeta env e semantic r =
     Returns (map Warned warns @ [Report (fst (printMissing (parseOG findMeta html) e))],
              if \<exists>k \<in> set (requiredTags e). lookup (parseOG findMeta html) k = []
              then Inl RequiredTagsMissing else Inr ())"
  using assms by (simp add: validateCmd_def Let_def printMissing_code)

lemma validateCmd_without_semantic:
  "fetchHTML r = Inr html \<Longrightarrow>
   validateCmd findMeta env e False r =
     Returns ([Report (fst (printMissing (parseOG findMeta html) e))],
              if \<exists>k \<in> set (requiredTags e). lookup (parseOG findMeta html) k = []
              then Inl RequiredTagsMissing else Inr ())"
  using validateCmd_reaches_check [of r html False env findMeta "[]" e] by simp

text \<open>
  C10. The check itself does what the claim says: a tag is reported as missing exactly when
  its value read from the snapshot is the empty string, whether the key is absent or present
  with an empty content, and when validate gets to the check it returns its error (exit
  status 1) exactly then.  With \<^verbatim>\<open>--semantic\<close> the command does not always get there: for a
  page with an empty \<^verbatim>\<open>og:title\<close> and an \<^verbatim>\<open>og:image\<close> whose URL is not accepted by
  \<^verbatim>\<open>http.NewRequestWithContext\<close>, \<open>checkImage\<close> passes the nil request to \<^verbatim>\<open>Do\<close> and panics:
  nothing is reported as missing and the exit status is 2.
\<close>

theorem validate_semantic_panics_before_report:
  "parseOG (\<lambda>_. [[(''property'', ''og:title''), (''content'', [])],
                   [(''property'', ''og:image''), (''content'', '':'')]]) ''<html>''
     = [(''title'', []), (''image'', '':'')]
   \<and> MissingTag ''og:title'' \<in> set (fst (printMissing [(''title'', []), (''image'', '':'')] True))
   \<and> snd (printMissing [(''title'', []), (''image'', '':'')] True) = 1
   \<and> validateCmd (\<lambda>_. [[(''property'', ''og:title''), (''content'', [])],
                         [(''property'', ''og:image''), (''content'', '':'')]])
       \<lparr>requestOK = (\<lambda>u. u \<noteq> '':''), headResult = Inr None, getResult = GetBlocks,
        ratioOff = (\<lambda>w h. False)\<rparr>
       True True (Response 200 ''200 OK'' (Inr ''<html>''))
     = Panics
   \<and> exitStatus (validateCmd (\<lambda>_. [[(''property'', ''og:title''), (''content'', [])],
                         [(''property'', ''og:image''), (''content'', '':'')]])
       \<lparr>requestOK = (\<lambda>u. u \<noteq> '':''), headResult = Inr None, getResult = GetBlocks,
        ratioOff = (\<lambda>w h. False)\<rparr>
       True True (Response 200 ''200 OK'' (Inr ''<html>'')))
     = Some 2"
proof -
  let ?F = "\<lambda>_::string. [[(''property'', ''og:title''), (''content'', [])],
                   [(''property'', ''og:image''), (''content'', '':'')]]"
  let ?env = "\<lparr>requestOK = (\<lambda>u. u \<noteq> '':''), headResult = Inr None, getResult = GetBlocks,
        ratioOff = (\<lambda>w h. False)\<rparr>"
  have p: "parseOG ?F ''<html>'' = [(''title'', []), (''image'', '':'')]"
    by (simp add: parseOG_def visitMeta_def handleAttr_def attr_def hasPrefix_def trimPrefix_def)
  have f: "fetchHTML (Response 200 ''200 OK'' (Inr ''<html>'')) = Inr ''<html>''"
    by (simp add: fetchHTML_def)
  have c: "checkImage ?env '':'' = Panics"
    by (simp add: checkImage_def)
  have s: "semanticValidate ?env [(''title'', []), (''image'', '':'')] = Panics"
    by (simp add: semanticValidate_def imageWarnings_def c)
  have v: "validateCmd ?F ?env True True (Response 200 ''200 OK'' (Inr ''<html>'')) = Panics"
    by (simp add: validateCmd_def f p s)
  have m: "MissingTag ''og:title'' \<in> set (fst (printMissing [(''title'', []), (''image'', '':'')] True))"
    using printMissing_reports_tag [of "''title''" "[(''title'', []), (''image'', '':'')]" True]
    by (simp add: requiredTags_def essentialTags_def lookup_def)
  have n: "snd (printMissing [(''title'', []), (''image'', '':'')] True) = 1"
    by (simp add: printMissing_code requiredTags_def essentialTags_def lookup_def)
  show ?thesis
    by (simp only: p v m n exitStatus_def run.case simp_thms)
qed

section \<open>Properties of the monitor\<close>





text \<open>
  The branch of the control loop for a cancelled context closes the channel at once, without
  waiting for the fetches in flight: under a context that is cancelled while a fetch is in
  flight, the send of that fetch meets the closed channel.  The program itself never cancels
  this context before the render loop has returned (\<^verbatim>\<open>main\<close> runs the command with the
  background context and installs no signal handler, and the only call of \<^verbatim>\<open>cancel\<close> is
  deferred), and along a schedule without a cancellation the channel is never closed, nothing
  panics, and both loops keep running.
\<close>

lemma ctx_done_closes_with_fetch_in_flight:
  "monitorRun (\<lambda>_. []) False False
     [Tick, Cancel, SelectDone] monitorInit
   = Some (monitorInit\<lparr>ctlRunning := False, cancelled := True, fetches := [Fetching],
                        chanClosed := True\<rparr>)
   \<and> monitorRun (\<lambda>_. []) False False
     [Tick, Cancel, SelectDone, FetchDone 0 (Response 200 ''200 OK'' (Inr ''<html></html>'')) ''t'',
      Deliver 0] monitorInit
   = Some (monitorInit\<lparr>ctlRunning := False, cancelled := True,
                        fetches := [Delivering \<lparr>ev_ts = ''t'', ev_og = []\<rparr>],
                        chanClosed := True, panicked := True\<rparr>)"
proof -
  let ?s1 = "monitorInit\<lparr>fetches := [Fetching]\<rparr>"
  let ?s2 = "monitorInit\<lparr>cancelled := True, fetches := [Fetching]\<rparr>"
  let ?s3 = "monitorInit\<lparr>ctlRunning := False, cancelled := True, fetches := [Fetching],
                          chanClosed := True\<rparr>"
  let ?s4 = "monitorInit\<lparr>ctlRunning := False, cancelled := True,
                          fetches := [Delivering \<lparr>ev_ts = ''t'', ev_og = []\<rparr>],
                          chanClosed := True\<rparr>"
  let ?s5 = "monitorInit\<lparr>ctlRunning := False, cancelled := True,
                          fetches := [Delivering \<lparr>ev_ts = ''t'', ev_og = []\<rparr>],
                          chanClosed := True, panicked := True\<rparr>"
  have tick: "monitorStep (\<lambda>_. []) False False Tick monitorInit = Some ?s1"
    by (simp add: monitorInit_def)
  have cancel: "monitorStep (\<lambda>_. []) False False Cancel ?s1 = Some ?s2"
    by (simp add: monitorInit_def)
  have close: "monitorStep (\<lambda>_. []) False False SelectDone ?s2 = Some ?s3"
    by (simp add: monitorInit_def)
  have fetched: "monitorStep (\<lambda>_. []) False False
      (FetchDone 0 (Response 200 ''200 OK'' (Inr ''<html></html>'')) ''t'') ?s3 = Some ?s4"
    by (simp add: monitorInit_def fetchHTML_def parseOG_def)
  have send: "monitorStep (\<lambda>_. []) False False (Deliver 0) ?s4 = Some ?s5"
    by (simp add: monitorInit_def)
  show ?thesis
    by (simp only: monitorRun.simps tick cancel close fetched send option.case simp_thms)
qed

lemma monitorStep_without_cancel:
  assumes "monitorStep findMeta jsonDiff unified a s = Some s'" and "a \<noteq> Cancel"
    and "\<not> cancelled s" and "\<not> chanClosed s"
  shows "\<not> cancelled s' \<and> \<not> chanClosed s' \<and> \<not> panicked s'
         \<and> ctlRunning s' = ctlRunning s \<and> rendering s' = rendering s"
  using assms by (cases a) (auto simp: Let_def split: if_splits fetch.splits sum.splits)

lemma monitorRun_without_cancel:
  "monitorRun findMeta jsonDiff unified acts s = Some s' \<Longrightarrow> Cancel \<notin> set acts \<Longrightarrow>
   \<not> cancelled s \<Longrightarrow> \<not> chanClosed s \<Longrightarrow> \<not> panicked s \<Longrightarrow>
   \<not> cancelled s' \<and> \<not> chanClosed s' \<and> \<not> panicked s'
   \<and> ctlRunning s' = ctlRunning s \<and> rendering s' = rendering s"
proof (induction acts arbitrary: s)
  case Nil
  then show ?case by simp
next
  case (Cons a acts)
  from Cons.prems(1) obtain s1 where
    a: "monitorStep findMeta jsonDiff unified a s = Some s1"
    and r: "monitorRun findMeta jsonDiff unified acts s1 = Some s'"
    by (auto split: option.splits)
  from Cons.prems(2) have na: "a \<noteq> Cancel" and nr: "Cancel \<notin> set acts" by auto
  from monitorStep_without_cancel [OF a na Cons.prems(3,4)]
  have 1: "\<not> cancelled s1" "\<not> chanClosed s1" "\<not> panicked s1"
    and 2: "ctlRunning s1 = ctlRunning s" "rendering s1 = rendering s" by simp_all
  from Cons.IH [OF r nr 1] 2 show ?case by simp
qed




lemma monitorStep_keeps_prev:
  "monitorStep findMeta jsonDiff unified a s = Some s' \<Longrightarrow> \<forall>n. a \<noteq> Deliver n \<Longrightarrow> prev s' = prev s"
  by (cases a) (auto split: if_splits fetch.splits sum.splits)

text \<open>
  C6. When the request of a fetch goroutine fails (no response: transport error or timeout;
  or a status of 400 and above), the goroutine prints the error and ends: it never reaches
  its send, so no event exists for that cycle; the baseline, which only a delivered event
  changes, is as before; the control loop and the render loop are as before, and the next
  tick starts a new fetch.
\<close>

theorem monitor_failed_fetch_skips_cycle:
  assumes "\<not> panicked s" and "i < length (fetches s)" and "fetches s ! i = Fetching"
    and "fetchHTML r = Inl err"
  shows "monitorStep findMeta jsonDiff unified (FetchDone i r t) s =
       Some (s\<lparr>out := out s @ [MonitorError err], fetches := (fetches s)[i := Finished]\<rparr>)
     \<and> (ctlRunning s \<longrightarrow>
          monitorStep findMeta jsonDiff unified Tick
            (s\<lparr>out := out s @ [MonitorError err], fetches := (fetches s)[i := Finished]\<rparr>) =
          Some (s\<lparr>out := out s @ [MonitorError err],
                   fetches := (fetches s)[i := Finished] @ [Fetching]\<rparr>))
     \<and> (\<forall>a s'. monitorStep findMeta jsonDiff unified a s = Some s' \<and> (\<forall>n. a \<noteq> Deliver n)
          \<longrightarrow> prev s' = prev s)
     \<and> fetchHTML (NoResponse e) = Inl (ClientError e)
     \<and> (400 \<le> code \<longrightarrow> fetchHTML (Response code status doc) = Inl (HTTPStatus code status))"
proof (intro conjI impI allI)
  show "monitorStep findMeta jsonDiff unified (FetchDone i r t) s =
       Some (s\<lparr>out := out s @ [MonitorError err], fetches := (fetches s)[i := Finished]\<rparr>)"
    using assms by simp
next
  assume "ctlRunning s"
  then show "monitorStep findMeta jsonDiff unified Tick
            (s\<lparr>out := out s @ [MonitorError err], fetches := (fetches s)[i := Finished]\<rparr>) =
          Some (s\<lparr>out := out s @ [MonitorError err],
                   fetches := (fetches s)[i := Finished] @ [Fetching]\<rparr>)"
    using assms(1) by simp
next
  fix a s'
  assume "monitorStep findMeta jsonDiff unified a s = Some s' \<and> (\<forall>n. a \<noteq> Deliver n)"
  then show "prev s' = prev s"
    using monitorStep_keeps_prev by blast
next
  show "fetchHTML (NoResponse e) = Inl (ClientError e)"
    by (simp add: fetchHTML_def)
next
  assume "400 \<le> code"
  then show "fetchHTML (Response code status doc) = Inl (HTTPStatus code status)"
    by (simp add: fetchHTML_def)
qed

theorem monitor_failed_fetch_skips_cycle_witness:
  "monitorRun (\<lambda>_. []) False False
     [Tick, FetchDone 0 (Response 404 ''404 Not Found'' (Inr ''<html>'')) ''t'', Tick] monitorInit
   = Some (monitorInit\<lparr>fetches := [Finished, Fetching],
             out := [MonitorError (HTTPStatus 404 ''404 Not Found'')]\<rparr>)"
proof -
  have f: "fetchHTML (Response 404 ''404 Not Found'' (Inr ''<html>''))
             = Inl (HTTPStatus 404 ''404 Not Found'')"
    by (simp add: fetchHTML_def)
  have t: "monitorStep (\<lambda>_. []) False False Tick monitorInit
             = Some (monitorInit\<lparr>fetches := [Fetching]\<rparr>)"
    by (simp add: monitorInit_def)
  have "\<not> panicked (monitorInit\<lparr>fetches := [Fetching]\<rparr>)"
    and "0 < length (fetches (monitorInit\<lparr>fetches := [Fetching]\<rparr>))"
    and "fetches (monitorInit\<lparr>fetches := [Fetching]\<rparr>) ! 0 = Fetching"
    and "ctlRunning (monitorInit\<lparr>fetches := [Fetching]\<rparr>)"
    by (simp_all add: monitorInit_def)
  from monitor_failed_fetch_skips_cycle [OF this(1-3) f, of "\<lambda>_. []" False False "''t''"]
    and this(4) and t
  show ?thesis
    by (simp add: monitorInit_def f)
qed

section \<open>Properties of the worker pool\<close>

lemma sum_list_map_update:
  fixes f :: "'a \<Rightarrow> 'b::comm_monoid_add"
  shows "i < length xs \<Longrightarrow>
    sum_list (map f (xs[i := y])) + f (xs ! i) = sum_list (map f xs) + f y"
proof (induction xs arbitrary: i)
  case Nil
  then show ?case by simp
next
  case (Cons x xs)
  show ?case
  proof (cases i)
    case 0
    then show ?thesis by (simp add: ac_simps)
  next
    case (Suc j)
    with Cons.prems have "j < length xs" by simp
    from Cons.IH [OF this] Suc show ?thesis
      by (simp add: ac_simps)
  qed
qed

lemma holding_update:
  "i < length ws \<Longrightarrow>
   sum_list (map holding (ws[i := w])) + holding (ws ! i) = sum_list (map holding ws) + holding w"
  by (rule sum_list_map_update)

lemma stepsLeft_update:
  "i < length ws \<Longrightarrow>
   sum_list (map stepsLeft (ws[i := w])) + stepsLeft (ws ! i)
     = sum_list (map stepsLeft ws) + stepsLeft w"
  by (rule sum_list_map_update)

lemma all_Returned_nth:
  "list_all (\<lambda>w. w = Returned) ws \<Longrightarrow> i < length ws \<Longrightarrow> ws ! i = Returned"
  by (simp add: list_all_length)

lemma Returned_in_update:
  "Returned \<in> set (ws[i := w]) \<Longrightarrow> w \<noteq> Returned \<Longrightarrow> Returned \<in> set ws"
  using set_update_subset_insert [of ws i w] by auto

lemma poolStep_length:
  "poolStep findMeta a s = Some s' \<Longrightarrow> length (workers s') = length (workers s)"
  by (cases a) (auto split: if_splits list.splits worker.splits)

lemma poolStep_inv:
  assumes "poolInv urls s" and "poolStep findMeta a s = Some s'"
  shows "poolInv urls s' \<and> Suc (poolMeasure s') = poolMeasure s"
proof (cases a)
  case (Feed i)
  with assms(2) obtain u rest where
    i: "i < length (workers s)" and f: "toFeed s = u # rest" and w: "workers s ! i = Idle"
    and s': "s' = s\<lparr>toFeed := rest, workers := (workers s)[i := Busy u]\<rparr>"
    by (auto split: if_splits list.splits worker.splits)
  have h: "sum_list (map holding ((workers s)[i := Busy u])) = sum_list (map holding (workers s)) + {#u#}"
    using holding_update [OF i, of "Busy u"] w by simp
  have m: "sum_list (map stepsLeft ((workers s)[i := Busy u])) + 1 = sum_list (map stepsLeft (workers s)) + 3"
    using stepsLeft_update [OF i, of "Busy u"] w by simp
  have r: "Returned \<in> set ((workers s)[i := Busy u]) \<Longrightarrow> Returned \<in> set (workers s)"
    by (erule Returned_in_update) simp
  have c: "\<not> resultsClosed s"
    using assms(1) i w all_Returned_nth [of "workers s" i] by (auto simp: poolInv_def)
  show ?thesis
    using assms(1) f h m r c unfolding s' poolInv_def poolMeasure_def by auto
next
  case CloseTasks
  with assms show ?thesis
    by (auto simp: poolInv_def poolMeasure_def split: if_splits)
next
  case (Fetched i r)
  with assms(2) obtain u where
    i: "i < length (workers s)" and w: "workers s ! i = Busy u"
    and s': "s' = s\<lparr>workers := (workers s)[i := Emitting (fetchResult findMeta u r)]\<rparr>"
    by (auto split: if_splits worker.splits)
  let ?e = "Emitting (fetchResult findMeta u r)"
  have u: "res_url (fetchResult findMeta u r) = u"
    by (simp add: fetchResult_def split: sum.splits)
  have h: "sum_list (map holding ((workers s)[i := ?e])) = sum_list (map holding (workers s))"
    using holding_update [OF i, of ?e] w u by simp
  have m: "sum_list (map stepsLeft ((workers s)[i := ?e])) + 3 = sum_list (map stepsLeft (workers s)) + 2"
    using stepsLeft_update [OF i, of ?e] w by simp
  have r: "Returned \<in> set ((workers s)[i := ?e]) \<Longrightarrow> Returned \<in> set (workers s)"
    by (erule Returned_in_update) simp
  have c: "\<not> resultsClosed s"
    using assms(1) i w all_Returned_nth [of "workers s" i] by (auto simp: poolInv_def)
  show ?thesis
    using assms(1) h m r c unfolding s' poolInv_def poolMeasure_def by auto
next
  case (Collect i)
  with assms(2) obtain res where
    i: "i < length (workers s)" and w: "workers s ! i = Emitting res"
    by (auto split: if_splits worker.splits)
  have c: "\<not> resultsClosed s"
    using assms(1) i w all_Returned_nth [of "workers s" i] by (auto simp: poolInv_def)
  with assms(2) Collect i w
  have s': "s' = s\<lparr>received := received s @ [res], workers := (workers s)[i := Idle]\<rparr>"
    by (auto split: if_splits)
  have h: "sum_list (map holding ((workers s)[i := Idle])) + {#res_url res#}
             = sum_list (map holding (workers s))"
    using holding_update [OF i, of Idle] w by simp
  have m: "sum_list (map stepsLeft ((workers s)[i := Idle])) + 2 = sum_list (map stepsLeft (workers s)) + 1"
    using stepsLeft_update [OF i, of Idle] w by simp
  have r: "Returned \<in> set ((workers s)[i := Idle]) \<Longrightarrow> Returned \<in> set (workers s)"
    by (erule Returned_in_update) simp
  have "mset (map res_url (received s)) + sum_list (map holding (workers s)) + mset (toFeed s) = mset urls"
    using assms(1) by (simp add: poolInv_def)
  then have e: "mset (map res_url (received s @ [res])) + sum_list (map holding ((workers s)[i := Idle]))
        + mset (toFeed s) = mset urls"
    unfolding h [symmetric] by (simp add: ac_simps)
  show ?thesis
    using assms(1) e m r c unfolding s' poolInv_def poolMeasure_def by auto
next
  case (Return i)
  with assms(2) have
    i: "i < length (workers s)" and w: "workers s ! i = Idle" and t: "tasksClosed s"
    and s': "s' = s\<lparr>workers := (workers s)[i := Returned]\<rparr>"
    by (auto split: if_splits worker.splits)
  have h: "sum_list (map holding ((workers s)[i := Returned])) = sum_list (map holding (workers s))"
    using holding_update [OF i, of Returned] w by simp
  have m: "sum_list (map stepsLeft ((workers s)[i := Returned])) + 1 = sum_list (map stepsLeft (workers s))"
    using stepsLeft_update [OF i, of Returned] w by simp
  have c: "\<not> resultsClosed s"
    using assms(1) i w all_Returned_nth [of "workers s" i] by (auto simp: poolInv_def)
  show ?thesis
    using assms(1) h m t c unfolding s' poolInv_def poolMeasure_def by auto
next
  case CloseResults
  with assms show ?thesis
    by (auto simp: poolInv_def poolMeasure_def split: if_splits)
qed

lemma poolRun_inv:
  "poolInv urls s \<Longrightarrow> poolRun findMeta acts s = Some s' \<Longrightarrow>
   poolInv urls s' \<and> length acts + poolMeasure s' = poolMeasure s
   \<and> length (workers s') = length (workers s)"
proof (induction acts arbitrary: s)
  case Nil
  then show ?case by simp
next
  case (Cons a acts)
  from Cons.prems(2) obtain s1 where
    a: "poolStep findMeta a s = Some s1" and r: "poolRun findMeta acts s1 = Some s'"
    by (auto split: option.splits)
  from poolStep_inv [OF Cons.prems(1) a] have i: "poolInv urls s1"
    and m: "Suc (poolMeasure s1) = poolMeasure s" by simp_all
  from Cons.IH [OF i r] m poolStep_length [OF a] show ?case by simp
qed

lemma poolInit_inv: "poolInv urls (poolInit urls n)"
proof -
  have "sum_list (map holding (replicate n Idle)) = {#}"
    by (induction n) simp_all
  then show ?thesis
    by (simp add: poolInv_def poolInit_def)
qed

lemma poolInit_measure: "poolMeasure (poolInit urls n) = 3 * length urls + n + 2"
proof -
  have "sum_list (map stepsLeft (replicate n Idle)) = n"
    by (induction n) simp_all
  then show ?thesis
    by (simp add: poolMeasure_def poolInit_def)
qed

lemma all_Returned_holding:
  "list_all (\<lambda>w. w = Returned) ws \<Longrightarrow> sum_list (map holding ws) = {#}"
  by (induction ws) simp_all

lemma all_Returned_member:
  "list_all (\<lambda>w. w = Returned) ws \<Longrightarrow> ws \<noteq> [] \<Longrightarrow> Returned \<in> set ws"
  by (cases ws) simp_all

lemma pool_final:
  assumes "poolInv urls s" and "workers s \<noteq> []" and "resultsClosed s"
  shows "mset (map res_url (received s)) = mset urls"
proof -
  from assms(1,3) have a: "list_all (\<lambda>w. w = Returned) (workers s)"
    by (simp add: poolInv_def)
  from a assms(2) have "Returned \<in> set (workers s)" by (rule all_Returned_member)
  with assms(1) have "toFeed s = []" by (simp add: poolInv_def)
  with assms(1) all_Returned_holding [OF a] show ?thesis
    by (simp add: poolInv_def)
qed

lemma pool_progress:
  assumes "poolInv urls s" and "\<not> resultsClosed s"
  shows "\<exists>a s'. poolStep findMeta a s = Some s'"
proof -
  have nc: "\<not> crashed s" using assms(1) by (simp add: poolInv_def)
  show ?thesis
  proof (cases "list_all (\<lambda>w. w = Returned) (workers s)")
    case True
    with nc assms(2) have "poolStep findMeta CloseResults s = Some (s\<lparr>resultsClosed := True\<rparr>)"
      by simp
    then show ?thesis by blast
  next
    case False
    then obtain i where i: "i < length (workers s)" and n: "workers s ! i \<noteq> Returned"
      by (auto simp: list_all_length)
    show ?thesis
    proof (cases "\<exists>j < length (workers s). \<exists>u. workers s ! j = Busy u")
      case True
      then obtain j u where "j < length (workers s)" "workers s ! j = Busy u" by blast
      with nc have "poolStep findMeta (Fetched j (NoResponse [])) s \<noteq> None" by simp
      then show ?thesis by blast
    next
      case nobusy: False
      show ?thesis
      proof (cases "\<exists>j < length (workers s). \<exists>res. workers s ! j = Emitting res")
        case True
        then obtain j res where "j < length (workers s)" "workers s ! j = Emitting res" by blast
        with nc assms(2) have "poolStep findMeta (Collect j) s \<noteq> None" by simp
        then show ?thesis by blast
      next
        case False
        with nobusy i n have idle: "workers s ! i = Idle"
          by (cases "workers s ! i") auto
        show ?thesis
        proof (cases "toFeed s")
          case (Cons u rest)
          with nc i idle have "poolStep findMeta (Feed i) s \<noteq> None" by simp
          then show ?thesis by blast
        next
          case Nil
          show ?thesis
          proof (cases "tasksClosed s")
            case True
            with nc i idle have "poolStep findMeta (Return i) s \<noteq> None" by simp
            then show ?thesis by blast
          next
            case False
            with nc Nil have "poolStep findMeta CloseTasks s \<noteq> None" by simp
            then show ?thesis by blast
          qed
        qed
      qed
    qed
  qed
qed

lemma workerCount_bounds:
  "0 < n \<Longrightarrow> 1 \<le> numCPU \<Longrightarrow>
   1 \<le> workerCount w numCPU n \<and> workerCount w numCPU n \<le> int n"
  by (auto simp: workerCount_def Let_def)


lemma all_Returned_stepsLeft:
  "list_all (\<lambda>w. w = Returned) ws \<Longrightarrow> sum_list (map stepsLeft ws) = 0"
  by (induction ws) simp_all

lemma pool_final_measure:
  assumes "poolInv urls s" and "workers s \<noteq> []"
  shows "resultsClosed s \<longleftrightarrow> poolMeasure s = 0"
proof
  assume c: "resultsClosed s"
  with assms(1) have a: "list_all (\<lambda>w. w = Returned) (workers s)"
    by (simp add: poolInv_def)
  from a assms(2) have "Returned \<in> set (workers s)" by (rule all_Returned_member)
  with assms(1) have "tasksClosed s" and "toFeed s = []" by (simp_all add: poolInv_def)
  with c all_Returned_stepsLeft [OF a] show "poolMeasure s = 0"
    by (simp add: poolMeasure_def)
next
  assume "poolMeasure s = 0"
  then show "resultsClosed s"
    by (simp add: poolMeasure_def split: if_splits)
qed

lemma pool_completes:
  "poolInv urls s \<Longrightarrow> \<exists>rest s'. poolRun findMeta rest s = Some s' \<and> resultsClosed s'"
proof (induction "poolMeasure s" arbitrary: s rule: less_induct)
  case less
  show ?case
  proof (cases "resultsClosed s")
    case True
    then have "poolRun findMeta [] s = Some s \<and> resultsClosed s" by simp
    then show ?thesis by blast
  next
    case False
    with less.prems obtain a s1 where a: "poolStep findMeta a s = Some s1"
      using pool_progress by blast
    from poolStep_inv [OF less.prems a] have i: "poolInv urls s1"
      and m: "poolMeasure s1 < poolMeasure s" by simp_all
    from less.hyps [OF m i] obtain rest s' where
      "poolRun findMeta rest s1 = Some s'" and c: "resultsClosed s'" by blast
    with a have "poolRun findMeta (a # rest) s = Some s'" by simp
    with c show ?thesis by blast
  qed
qed

text \<open>
  C1. For every non-empty URL list of length L, every value of the workers flag and every
  positive number of CPUs, the command starts W workers with 1 \<le> W \<le> L (the number of CPUs
  when the flag is not positive, at most L).  Whatever the scheduler does and whatever the
  outcome of each request is (both are the schedule \<open>acts\<close>): no send meets a closed channel;
  as long as the result channel is open some step is possible, so no goroutine failure blocks
  the others, and the schedule can be continued to the close of the result channel; every
  schedule has at most 3L + W + 2 steps, and the result channel is closed exactly after that
  many; and then the aggregator has received exactly L results, whose
  URLs are the submitted URLs, each as often as it was submitted: none dropped, none
  duplicated, a failed fetch counting like a successful one.
\<close>

theorem inspect_pool_results:
  assumes "urls \<noteq> []" and "1 \<le> numCPU"
    and "poolRun findMeta acts (poolInit urls (nat (workerCount w numCPU (length urls)))) = Some s"
  shows "inspectStart w numCPU urls = Inr (poolInit urls (nat (workerCount w numCPU (length urls))))
     \<and> 1 \<le> workerCount w numCPU (length urls)
     \<and> workerCount w numCPU (length urls) \<le> int (length urls)
     \<and> length (workers s) = nat (workerCount w numCPU (length urls))
     \<and> \<not> crashed s
     \<and> (resultsClosed s \<longrightarrow>
          length (received s) = length urls \<and> mset (map res_url (received s)) = mset urls)
     \<and> (\<not> resultsClosed s \<longrightarrow> (\<exists>a s'. poolStep findMeta a s = Some s'))
     \<and> (\<exists>rest s'. poolRun findMeta rest s = Some s' \<and> resultsClosed s')
     \<and> (resultsClosed s \<longleftrightarrow>
          length acts = 3 * length urls + nat (workerCount w numCPU (length urls)) + 2)
     \<and> length acts \<le> 3 * length urls + nat (workerCount w numCPU (length urls)) + 2"
proof -
  let ?n = "nat (workerCount w numCPU (length urls))"
  have b: "1 \<le> workerCount w numCPU (length urls) \<and> workerCount w numCPU (length urls) \<le> int (length urls)"
    using assms(1,2) by (intro workerCount_bounds) simp_all
  have wl: "length (workers (poolInit urls ?n)) = ?n"
    by (simp add: poolInit_def)
  from poolRun_inv [OF poolInit_inv assms(3)]
  have inv: "poolInv urls s"
    and m: "length acts + poolMeasure s = 3 * length urls + ?n + 2"
    and l: "length (workers s) = ?n"
    by (simp_all only: poolInit_measure wl)
  from l b have ne: "workers s \<noteq> []" by auto
  have fin: "resultsClosed s \<Longrightarrow> mset (map res_url (received s)) = mset urls"
    using inv ne by (rule pool_final)
  have len: "resultsClosed s \<Longrightarrow> length (received s) = length urls"
  proof -
    assume "resultsClosed s"
    then have "size (mset (map res_url (received s))) = size (mset urls)"
      by (simp only: fin)
    then show ?thesis by simp
  qed
  have prog: "\<not> resultsClosed s \<Longrightarrow> \<exists>a s'. poolStep findMeta a s = Some s'"
    using inv by (rule pool_progress)
  have cl: "resultsClosed s \<longleftrightarrow> length acts = 3 * length urls + ?n + 2"
    using pool_final_measure [OF inv ne] m by auto
  have st: "inspectStart w numCPU urls = Inr (poolInit urls ?n)"
    using assms(1) by (simp add: inspectStart_def)
  have nc: "\<not> crashed s" using inv by (simp add: poolInv_def)
  have comp: "\<exists>rest s'. poolRun findMeta rest s = Some s' \<and> resultsClosed s'"
    using inv by (rule pool_completes)
  show ?thesis
    using st b l nc fin len prog comp cl m by simp
qed

theorem inspect_pool_results_witness:
  "inspectStart 0 8 [''a'', ''b''] = Inr (poolInit [''a'', ''b''] 2)
   \<and> poolRun (\<lambda>_. [])
       [Feed 0, Feed 1, CloseTasks, Fetched 1 (NoResponse ''timeout''), Collect 1,
        Fetched 0 (Response 200 ''200 OK'' (Inr ''<html>'')), Collect 0, Return 0, Return 1,
        CloseResults]
       (poolInit [''a'', ''b''] 2)
     = Some \<lparr>toFeed = [], tasksClosed = True, workers = [Returned, Returned],
             resultsClosed = True,
             received = [\<lparr>res_url = ''b'', res_og = [], res_err = Some (ClientError ''timeout'')\<rparr>,
                         \<lparr>res_url = ''a'', res_og = [], res_err = None\<rparr>],
             crashed = False\<rparr>
   \<and> mset (map res_url
        [\<lparr>res_url = ''b'', res_og = [], res_err = Some (ClientError ''timeout'')\<rparr>,
         \<lparr>res_url = ''a'', res_og = [], res_err = None\<rparr>]) = mset [''a'', ''b'']"
proof -
  have n: "nat (workerCount 0 8 (length [''a'', ''b''])) = 2"
    by (simp add: workerCount_def)
  have r: "poolRun (\<lambda>_. [])
       [Feed 0, Feed 1, CloseTasks, Fetched 1 (NoResponse ''timeout''), Collect 1,
        Fetched 0 (Response 200 ''200 OK'' (Inr ''<html>'')), Collect 0, Return 0, Return 1,
        CloseResults]
       (poolInit [''a'', ''b''] (nat (workerCount 0 8 (length [''a'', ''b'']))))
     = Some \<lparr>toFeed = [], tasksClosed = True, workers = [Returned, Returned],
             resultsClosed = True,
             received = [\<lparr>res_url = ''b'', res_og = [], res_err = Some (ClientError ''timeout'')\<rparr>,
                         \<lparr>res_url = ''a'', res_og = [], res_err = None\<rparr>],
             crashed = False\<rparr>"
    unfolding n
    by (simp add: poolInit_def fetchResult_def fetchHTML_def parseOG_def numeral_2_eq_2)
  have u: "[''a'', ''b''] \<noteq> []" by simp
  have c: "(1::int) \<le> 8" by simp
  show ?thesis
    using inspect_pool_results [OF u c r] r unfolding n by simp
qed

section \<open>Properties of the aggregator\<close>

lemma fold_aggregate_snoc:
  "fold (aggregate jsonOut) (rs @ [r]) a = aggregate jsonOut r (fold (aggregate jsonOut) rs a)"
  by simp

lemma aggregate_step_exitCode:
  "exitCode (aggregate jsonOut r b) = (if res_err r \<noteq> None then 1 else exitCode b)"
  by (cases "res_err r") (simp_all add: aggregate_def)

lemma aggregate_step_shown:
  "set (shown b) \<subseteq> set (shown (aggregate jsonOut r b))"
  by (cases "res_err r") (auto simp: aggregate_def)

lemma aggregate_step_keys:
  "fst ` set (aggregated (aggregate True r b)) =
     fst ` set (aggregated b) \<union> (if res_err r = None then {res_url r} else {})"
  by (cases "res_err r") (auto simp: aggregate_def dom_update)

lemma aggregate_exitCode:
  "exitCode (fold (aggregate jsonOut) rs a) =
     (if \<exists>r \<in> set rs. res_err r \<noteq> None then 1 else exitCode a)"
proof (induction rs rule: rev_induct)
  case Nil
  show ?case by simp
next
  case (snoc r rs)
  show ?case
    unfolding fold_aggregate_snoc aggregate_step_exitCode using snoc by auto
qed

lemma aggregate_shown_mono:
  "set (shown a) \<subseteq> set (shown (fold (aggregate jsonOut) rs a))"
proof (induction rs rule: rev_induct)
  case Nil
  show ?case by simp
next
  case (snoc r rs)
  have "set (shown (fold (aggregate jsonOut) rs a))
          \<subseteq> set (shown (aggregate jsonOut r (fold (aggregate jsonOut) rs a)))"
    by (rule aggregate_step_shown)
  with snoc show ?case
    unfolding fold_aggregate_snoc by blast
qed

lemma aggregate_table_shown:
  assumes "r \<in> set rs" and "res_err r = None"
  shows "Heading (res_url r) \<in> set (shown (fold (aggregate False) rs a))
       \<and> Table (res_og r) \<in> set (shown (fold (aggregate False) rs a))
       \<and> Report (fst (printMissing (res_og r) False)) \<in> set (shown (fold (aggregate False) rs a))"
proof -
  from assms(1) obtain ys zs where rs: "rs = ys @ r # zs"
    by (auto simp: in_set_conv_decomp)
  have f: "fold (aggregate False) rs a =
           fold (aggregate False) zs (aggregate False r (fold (aggregate False) ys a))"
    unfolding rs by simp
  have "{Heading (res_url r), Table (res_og r), Report (fst (printMissing (res_og r) False))}
          \<subseteq> set (shown (aggregate False r (fold (aggregate False) ys a)))"
    using assms(2) by (simp add: aggregate_def)
  also have "\<dots> \<subseteq> set (shown (fold (aggregate False) rs a))"
    unfolding f by (rule aggregate_shown_mono)
  finally show ?thesis by simp
qed

lemma aggregate_json_map_of:
  "map_of (aggregated (aggregate True r a)) u =
     (if res_err r = None \<and> res_url r = u then Some (res_og r) else map_of (aggregated a) u)"
  by (cases "res_err r") (auto simp: aggregate_def update_conv')

lemma aggregate_json_last:
  assumes "res_err r = None"
    and "\<forall>t \<in> set zs. res_err t = None \<longrightarrow> res_url t \<noteq> res_url r"
  shows "map_of (aggregated (fold (aggregate True) (ys @ r # zs) a)) (res_url r) = Some (res_og r)"
  using assms(2)
proof (induction zs rule: rev_induct)
  case Nil
  have "fold (aggregate True) (ys @ [r]) a = aggregate True r (fold (aggregate True) ys a)"
    by simp
  then show ?case
    using assms(1) by (simp add: aggregate_json_map_of)
next
  case (snoc t zs)
  have "fold (aggregate True) (ys @ r # zs @ [t]) a =
        aggregate True t (fold (aggregate True) (ys @ r # zs) a)"
    by simp
  then show ?case
    using snoc by (auto simp: aggregate_json_map_of)
qed

lemma aggregate_json_keys:
  "fst ` set (aggregated (fold (aggregate True) rs a)) =
     fst ` set (aggregated a) \<union> {res_url r | r. r \<in> set rs \<and> res_err r = None}"
proof (induction rs rule: rev_induct)
  case Nil
  show ?case by simp
next
  case (snoc t rs)
  show ?case
    unfolding fold_aggregate_snoc aggregate_step_keys using snoc by auto
qed

lemma inspectResults_fst_table:
  "fst (inspectResults False encodeErr rs) = shown (fold (aggregate False) rs summaryInit)"
  by (simp add: inspectResults_def inspectFinish_def)

lemma inspectResults_fst_json:
  "fst (inspectResults True None rs) =
     shown (fold (aggregate True) rs summaryInit)
     @ [JSONDocument (aggregated (fold (aggregate True) rs summaryInit))]"
  by (simp add: inspectResults_def inspectFinish_def)

lemma inspectResults_snd:
  "snd (inspectResults jsonOut encodeErr rs) =
     (case (if jsonOut then encodeErr else None) of
        Some e \<Rightarrow> Inl (EncodeError e)
      | None \<Rightarrow> if \<exists>r \<in> set rs. res_err r \<noteq> None then Inl InspectionFailed else Inr ())"
  by (simp add: inspectResults_def inspectFinish_def aggregate_exitCode summaryInit_def
        split: option.splits)

text \<open>
  C4, as stated, fails in JSON mode: the aggregate is keyed by URL, so of two successful
  results for the same URL only the one received last is in the output.
\<close>

theorem inspect_duplicate_url_counterexample:
  "inspectResults True None
     [\<lparr>res_url = ''http://a'', res_og = [(''title'', ''One'')], res_err = None\<rparr>,
      \<lparr>res_url = ''http://a'', res_og = [(''title'', ''Two'')], res_err = None\<rparr>]
   = ([JSONDocument [(''http://a'', [(''title'', ''Two'')])]], Inr ())"
  by (simp add: inspectResults_def inspectFinish_def aggregate_def summaryInit_def)

text \<open>
  C4, amended. The exit code is computed over the whole batch and is non-zero exactly when
  some result is a failure.  A failure always makes the command return an error; the error
  \<open>InspectionFailed\<close> is returned only when there is a failure; and unless writing the JSON
  document fails (whose error is returned instead), the command returns \<open>InspectionFailed\<close>
  when some fetch failed and succeeds otherwise.  Whatever else fails in the batch, in table
  mode every successful result is rendered (its heading and its table), and in JSON mode the
  document is written, the URL of every successful result is a key of it, and each URL
  holds the snapshot of the last successful result received for it.
\<close>

theorem inspect_aggregate_outcome:
  "(exitCode (fold (aggregate jsonOut) rs summaryInit) \<noteq> 0 \<longleftrightarrow> (\<exists>r \<in> set rs. res_err r \<noteq> None))
   \<and> ((\<exists>r \<in> set rs. res_err r \<noteq> None) \<longrightarrow> isl (snd (inspectResults jsonOut encodeErr rs)))
   \<and> (snd (inspectResults jsonOut encodeErr rs) = Inl InspectionFailed
        \<longrightarrow> (\<exists>r \<in> set rs. res_err r \<noteq> None))
   \<and> ((jsonOut \<longrightarrow> encodeErr = None) \<longrightarrow>
        snd (inspectResults jsonOut encodeErr rs) =
          (if \<exists>r \<in> set rs. res_err r \<noteq> None then Inl InspectionFailed else Inr ()))
   \<and> (\<forall>r \<in> set rs. res_err r = None \<longrightarrow>
        Heading (res_url r) \<in> set (fst (inspectResults False encodeErr rs))
        \<and> Table (res_og r) \<in> set (fst (inspectResults False encodeErr rs)))
   \<and> JSONDocument (aggregated (fold (aggregate True) rs summaryInit))
        \<in> set (fst (inspectResults True None rs))
   \<and> (\<forall>r \<in> set rs. res_err r = None \<longrightarrow>
        res_url r \<in> fst ` set (aggregated (fold (aggregate True) rs summaryInit)))
   \<and> (\<forall>ys r zs. rs = ys @ r # zs \<and> res_err r = None
        \<and> (\<forall>t \<in> set zs. res_err t = None \<longrightarrow> res_url t \<noteq> res_url r)
        \<longrightarrow> map_of (aggregated (fold (aggregate True) rs summaryInit)) (res_url r)
              = Some (res_og r))"
proof (intro conjI impI allI ballI)
  show "exitCode (fold (aggregate jsonOut) rs summaryInit) \<noteq> 0 \<longleftrightarrow> (\<exists>r \<in> set rs. res_err r \<noteq> None)"
    by (simp add: aggregate_exitCode summaryInit_def)
next
  assume "\<exists>r \<in> set rs. res_err r \<noteq> None"
  then show "isl (snd (inspectResults jsonOut encodeErr rs))"
    by (simp add: inspectResults_snd split: option.splits)
next
  assume "snd (inspectResults jsonOut encodeErr rs) = Inl InspectionFailed"
  then show "\<exists>r \<in> set rs. res_err r \<noteq> None"
    by (simp add: inspectResults_snd split: option.splits if_splits)
next
  assume "jsonOut \<longrightarrow> encodeErr = None"
  then show "snd (inspectResults jsonOut encodeErr rs) =
          (if \<exists>r \<in> set rs. res_err r \<noteq> None then Inl InspectionFailed else Inr ())"
    by (cases jsonOut) (simp_all add: inspectResults_snd)
next
  fix r assume "r \<in> set rs" and "res_err r = None"
  then show "Heading (res_url r) \<in> set (fst (inspectResults False encodeErr rs))"
    by (simp add: inspectResults_fst_table aggregate_table_shown)
next
  fix r assume "r \<in> set rs" and "res_err r = None"
  then show "Table (res_og r) \<in> set (fst (inspectResults False encodeErr rs))"
    by (simp add: inspectResults_fst_table aggregate_table_shown)
next
  show "JSONDocument (aggregated (fold (aggregate True) rs summaryInit))
        \<in> set (fst (inspectResults True None rs))"
    by (simp add: inspectResults_fst_json)
next
  fix r assume "r \<in> set rs" and "res_err r = None"
  then show "res_url r \<in> fst ` set (aggregated (fold (aggregate True) rs summaryInit))"
    by (auto simp: aggregate_json_keys)
next
  fix ys r zs
  assume "rs = ys @ r # zs \<and> res_err r = None
        \<and> (\<forall>t \<in> set zs. res_err t = None \<longrightarrow> res_url t \<noteq> res_url r)"
  then show "map_of (aggregated (fold (aggregate True) rs summaryInit)) (res_url r) = Some (res_og r)"
    using aggregate_json_last [of r zs ys summaryInit] by simp
qed


theorem inspect_aggregate_outcome_witness:
  "snd (inspectResults False None
     [\<lparr>res_url = ''http://a'', res_og = [(''title'', ''A'')], res_err = None\<rparr>,
      \<lparr>res_url = ''http://b'', res_og = [], res_err = Some (ClientError ''refused'')\<rparr>,
      \<lparr>res_url = ''http://c'', res_og = [(''title'', ''C'')], res_err = None\<rparr>])
     = Inl InspectionFailed
   \<and> Table [(''title'', ''A'')] \<in> set (fst (inspectResults False None
     [\<lparr>res_url = ''http://a'', res_og = [(''title'', ''A'')], res_err = None\<rparr>,
      \<lparr>res_url = ''http://b'', res_og = [], res_err = Some (ClientError ''refused'')\<rparr>,
      \<lparr>res_url = ''http://c'', res_og = [(''title'', ''C'')], res_err = None\<rparr>]))
   \<and> Table [(''title'', ''C'')] \<in> set (fst (inspectResults False None
     [\<lparr>res_url = ''http://a'', res_og = [(''title'', ''A'')], res_err = None\<rparr>,
      \<lparr>res_url = ''http://b'', res_og = [], res_err = Some (ClientError ''refused'')\<rparr>,
      \<lparr>res_url = ''http://c'', res_og = [(''title'', ''C'')], res_err = None\<rparr>]))"
proof -
  let ?a = "\<lparr>res_url = ''http://a'', res_og = [(''title'', ''A'')], res_err = None\<rparr>"
  let ?b = "\<lparr>res_url = ''http://b'', res_og = [], res_err = Some (ClientError ''refused'')\<rparr>"
  let ?c = "\<lparr>res_url = ''http://c'', res_og = [(''title'', ''C'')], res_err = None\<rparr>"
  have f: "\<exists>r \<in> set [?a, ?b, ?c]. res_err r \<noteq> None" by simp
  have a: "?a \<in> set [?a, ?b, ?c] \<and> res_err ?a = None" by simp
  have c: "?c \<in> set [?a, ?b, ?c] \<and> res_err ?c = None" by simp
  from inspect_aggregate_outcome [of False "[?a, ?b, ?c]" None]
  have 1: "snd (inspectResults False None [?a, ?b, ?c]) =
          (if \<exists>r \<in> set [?a, ?b, ?c]. res_err r \<noteq> None then Inl InspectionFailed else Inr ())"
    and 2: "\<forall>r \<in> set [?a, ?b, ?c]. res_err r = None \<longrightarrow>
        Heading (res_url r) \<in> set (fst (inspectResults False None [?a, ?b, ?c]))
        \<and> Table (res_og r) \<in> set (fst (inspectResults False None [?a, ?b, ?c]))"
    by blast+
  from 1 f have "snd (inspectResults False None [?a, ?b, ?c]) = Inl InspectionFailed"
    by (simp only: if_True)
  moreover from 2 a have "Table (res_og ?a) \<in> set (fst (inspectResults False None [?a, ?b, ?c]))"
    by blast
  moreover from 2 c have "Table (res_og ?c) \<in> set (fst (inspectResults False None [?a, ?b, ?c]))"
    by blast
  ultimately show ?thesis by simp
qed

end
